theory Spec2Isabelle
  imports Main "HOL-Library.Product_Lexorder" "HOL-Library.List_Lexorder"
begin

section \<open>Errors\<close>

text \<open>
  The exceptions the modelled code can raise: \<^verbatim>\<open>Exception('Invalid action')\<close> of a
  Problem that is given an action it does not know, \<^verbatim>\<open>IndexError\<close> of \<^verbatim>\<open>xs[-1]\<close>,
  \<^verbatim>\<open>pop\<close> and \<^verbatim>\<open>popleft\<close> on an empty sequence, \<^verbatim>\<open>KeyError\<close> of a dict lookup.  A
  function that can raise returns \<open>error + 'a\<close>.
\<close>

datatype error = InvalidAction | IndexError | KeyError

section \<open>Problem (lab1, lab2)\<close>

text \<open>
  The interface \<^verbatim>\<open>Problem\<close>.  lab1 declares the first four members, lab2 adds
  \<^verbatim>\<open>action_cost\<close> and \<^verbatim>\<open>heuristic\<close>; breadth-first and depth-first search do not read
  the last two.  \<^verbatim>\<open>do_action\<close> may raise (\<^verbatim>\<open>VacuumProblem\<close> raises on an action it does
  not know), the other members are total.  Costs are Python integers.
\<close>

record ('s, 'a) Problem =
  initial_state :: 's
  available_actions :: "'s \<Rightarrow> 'a list"
  do_action :: "'s \<Rightarrow> 'a \<Rightarrow> error + 's"
  is_goal :: "'s \<Rightarrow> bool"
  action_cost :: "'s \<Rightarrow> 'a \<Rightarrow> int"
  heuristic :: "'s \<Rightarrow> int"

text \<open>
  Executing a plan, as the notebooks' test cells do:
  \<^verbatim>\<open>state = problem.do_action(state, action)\<close> for each action in turn; and the sum of
  the action costs on the way.
\<close>

fun run_plan :: "('s, 'a) Problem \<Rightarrow> 's \<Rightarrow> 'a list \<Rightarrow> error + 's" where
  "run_plan problem state [] = Inr state"
| "run_plan problem state (action # plan) =
     (case do_action problem state action of
        Inl e \<Rightarrow> Inl e
      | Inr state' \<Rightarrow> run_plan problem state' plan)"

fun plan_cost :: "('s, 'a) Problem \<Rightarrow> 's \<Rightarrow> 'a list \<Rightarrow> int" where
  "plan_cost problem state [] = 0"
| "plan_cost problem state (action # plan) =
     (case do_action problem state action of
        Inl e \<Rightarrow> 0
      | Inr state' \<Rightarrow> action_cost problem state action + plan_cost problem state' plan)"

text \<open>The states reachable from the initial state by listed actions.\<close>

inductive_set reachable :: "('s, 'a) Problem \<Rightarrow> 's set" for problem where
  init: "initial_state problem \<in> reachable problem"
| step: "s \<in> reachable problem \<Longrightarrow> a \<in> set (available_actions problem s) \<Longrightarrow>
         do_action problem s a = Inr s' \<Longrightarrow> s' \<in> reachable problem"

section \<open>Breadth-first search (lab1, BFSAgent.bfs)\<close>

text \<open>
  The body of \<^verbatim>\<open>for move in self.problem.available_actions(current_state)\<close>, over the
  moves still to be tried.  The state of the loop is the visited set and the deque.
\<close>

fun bfs_for ::
  "('s, 'a) Problem \<Rightarrow> 's \<Rightarrow> 'a list \<Rightarrow> 'a list \<Rightarrow> 's set \<times> ('s \<times> 'a list) list
     \<Rightarrow> error + 's set \<times> ('s \<times> 'a list) list"
where
  "bfs_for problem current_state current_path [] st = Inr st"
| "bfs_for problem current_state current_path (move # moves) (visited_states, queue_of_paths) =
     (case do_action problem current_state move of
        Inl e \<Rightarrow> Inl e
      | Inr new_state \<Rightarrow>
          if new_state \<notin> visited_states
          then bfs_for problem current_state current_path moves
                 (insert new_state visited_states,
                  queue_of_paths @ [(new_state, current_path @ [move])])
          else bfs_for problem current_state current_path moves (visited_states, queue_of_paths))"

text \<open>
  \<^verbatim>\<open>while not self.problem.is_goal(current_state) and queue_of_paths:\<close> with the
  \<^verbatim>\<open>for\<close> loop and \<^verbatim>\<open>current_state, current_path = queue_of_paths.popleft()\<close> as its
  body.  The loop has no bound, so it is a partial function (\<open>None\<close>: it does not
  return); it returns the variables it ends with.
\<close>

partial_function (option) bfs_while ::
  "('s, 'a) Problem \<Rightarrow> 's \<Rightarrow> 'a list \<Rightarrow> 's set \<Rightarrow> ('s \<times> 'a list) list
     \<Rightarrow> (error + 's \<times> 'a list \<times> 's set \<times> ('s \<times> 'a list) list) option"
where
  "bfs_while problem current_state current_path visited_states queue_of_paths =
     (if \<not> is_goal problem current_state \<and> queue_of_paths \<noteq> [] then
        case bfs_for problem current_state current_path
               (available_actions problem current_state) (visited_states, queue_of_paths) of
          Inl e \<Rightarrow> Some (Inl e)
        | Inr (visited', queue') \<Rightarrow>
            (case queue' of
               [] \<Rightarrow> Some (Inl IndexError)
             | (s, path) # rest \<Rightarrow> bfs_while problem s path visited' rest)
      else Some (Inr (current_state, current_path, visited_states, queue_of_paths)))"

text \<open>
  \<^verbatim>\<open>bfs\<close>: the initial state is put in the visited set and in the deque, and is also
  the first \<^verbatim>\<open>current_state\<close>; the result is \<^verbatim>\<open>list(current_path)\<close>.
\<close>

definition bfs :: "('s, 'a) Problem \<Rightarrow> (error + 'a list) option" where
  "bfs problem =
     map_option (map_sum id (\<lambda>(s, path, visited, queue). path))
       (bfs_while problem (initial_state problem) [] {initial_state problem}
          [(initial_state problem, [])])"

section \<open>Depth-first search (lab1, DFSAgent)\<close>

text \<open>\<^verbatim>\<open>xs[-1]\<close>, which raises on an empty list.\<close>

definition top :: "'s list \<Rightarrow> error + 's" where
  "top xs = (if xs = [] then Inl IndexError else Inr (last xs))"

text \<open>
  \<^verbatim>\<open>dfs_recurrence\<close> mutates three objects shared by all its activations:
  \<^verbatim>\<open>list_of_occured_states\<close>, \<^verbatim>\<open>path\<close> and \<^verbatim>\<open>visited_states\<close>; they are the state
  passed through.  \<open>dfs_for\<close> is the \<^verbatim>\<open>for move in ...\<close> loop of one activation over
  the moves still to be tried; the recursive call
  \<^verbatim>\<open>self.dfs_recurrence(list_of_occured_states, path, visited_states)\<close> is the loop of a
  new activation over the actions of the state just appended (the last element of the
  list at that point).  After the call, \<^verbatim>\<open>path.pop()\<close> and
  \<^verbatim>\<open>list_of_occured_states.pop()\<close> run when the last state of the list is not a goal;
  nothing is ever removed from \<^verbatim>\<open>visited_states\<close>.  The function is partial (\<open>None\<close>:
  it does not return).
\<close>

partial_function (option) dfs_for ::
  "('s, 'a) Problem \<Rightarrow> 'a list \<Rightarrow> 's list \<times> 'a list \<times> 's set
     \<Rightarrow> (error + 's list \<times> 'a list \<times> 's set) option"
where
  "dfs_for problem moves st =
    (case moves of
       [] \<Rightarrow> Some (Inr st)
     | move # moves' \<Rightarrow>
       (case st of (list_of_occured_states, path, visited_states) \<Rightarrow>
         (case top list_of_occured_states of
            Inl e \<Rightarrow> Some (Inl e)
          | Inr s \<Rightarrow>
            if is_goal problem s \<or> length path > 100 then Some (Inr st)
            else
              (case do_action problem s move of
                 Inl e \<Rightarrow> Some (Inl e)
               | Inr new_state \<Rightarrow>
                   if new_state \<notin> visited_states then
                     Option.bind
                       (dfs_for problem (available_actions problem new_state)
                          (list_of_occured_states @ [new_state], path @ [move],
                           insert new_state visited_states))
                       (\<lambda>r. case r of
                              Inl e \<Rightarrow> Some (Inl e)
                            | Inr (los', path', visited') \<Rightarrow>
                                (case top los' of
                                   Inl e \<Rightarrow> Some (Inl e)
                                 | Inr t \<Rightarrow>
                                     if \<not> is_goal problem t then
                                       (if path' = [] \<or> los' = [] then Some (Inl IndexError)
                                        else dfs_for problem moves' (butlast los', butlast path', visited'))
                                     else dfs_for problem moves' (los', path', visited')))
                   else dfs_for problem moves' st))))"

text \<open>An activation of \<^verbatim>\<open>dfs_recurrence\<close>: the loop over the actions of the last state.\<close>

definition dfs_recurrence ::
  "('s, 'a) Problem \<Rightarrow> 's list \<times> 'a list \<times> 's set \<Rightarrow> (error + 's list \<times> 'a list \<times> 's set) option"
where
  "dfs_recurrence problem st =
     (case top (fst st) of
        Inl e \<Rightarrow> Some (Inl e)
      | Inr s \<Rightarrow> dfs_for problem (available_actions problem s) st)"

text \<open>\<^verbatim>\<open>dfs\<close> returns \<^verbatim>\<open>path\<close> as the recursion left it.\<close>

definition dfs :: "('s, 'a) Problem \<Rightarrow> (error + 'a list) option" where
  "dfs problem =
     map_option (map_sum id (\<lambda>(list_of_occured_states, path, visited_states). path))
       (dfs_recurrence problem ([initial_state problem], [], {initial_state problem}))"

section \<open>A* (lab2, astar)\<close>

text \<open>
  An entry of the priority queue is the tuple
  \<^verbatim>\<open>(expected_distance_from_goal, state, path, cumulative_costs)\<close>.  The queue is a
  \<^verbatim>\<open>queue.PriorityQueue\<close> of the standard library: \<^verbatim>\<open>get\<close> removes a least entry in
  the order of tuples (lexicographic, paths compared as tuples of actions), and on an
  empty queue it blocks until another thread puts an entry, which never happens here:
  the call does not return (\<open>None\<close>).  The class defines neither \<^verbatim>\<open>__bool__\<close> nor
  \<^verbatim>\<open>__len__\<close>, so the object is true in \<^verbatim>\<open>while queue:\<close> whatever it holds.
\<close>

type_synonym ('s, 'a) entry = "int \<times> 's \<times> 'a list \<times> int"

definition pq_truthy :: "'e list \<Rightarrow> bool" where
  "pq_truthy queue = True"

definition pq_get :: "('e::linorder) list \<Rightarrow> ('e \<times> 'e list) option" where
  "pq_get queue =
     (if queue = [] then None
      else let m = fold min queue (hd queue) in Some (m, remove1 m queue))"

text \<open>
  The body of \<^verbatim>\<open>for action in problem.available_actions(current_state)\<close>, over the
  actions still to be tried.  The state of the loop is the queue, the dict
  \<^verbatim>\<open>visited_states_with_dist_from_start\<close> and \<^verbatim>\<open>count\<close>.  The priority of the new
  entry is \<^verbatim>\<open>problem.heuristic(next_state) + cumulative_costs\<close>, with the cost of the
  entry being expanded; the entry stores \<^verbatim>\<open>new_cumulative_costs\<close>.
\<close>

fun astar_for ::
  "('s, 'a) Problem \<Rightarrow> 's \<Rightarrow> 'a list \<Rightarrow> int \<Rightarrow> 'a list
     \<Rightarrow> ('s, 'a) entry list \<times> ('s \<rightharpoonup> int) \<times> nat
     \<Rightarrow> error + ('s, 'a) entry list \<times> ('s \<rightharpoonup> int) \<times> nat"
where
  "astar_for problem current_state path cumulative_costs [] st = Inr st"
| "astar_for problem current_state path cumulative_costs (action # actions) (queue, visited, count) =
     (case do_action problem current_state action of
        Inl e \<Rightarrow> Inl e
      | Inr next_state \<Rightarrow>
          let new_path = path @ [action];
              new_cumulative_costs = cumulative_costs + action_cost problem current_state action;
              expected_distance_from_goal = heuristic problem next_state + cumulative_costs;
              pushed = (queue @ [(expected_distance_from_goal, next_state, new_path, new_cumulative_costs)],
                        visited(next_state \<mapsto> expected_distance_from_goal), count + 1)
          in (case visited next_state of
                None \<Rightarrow> astar_for problem current_state path cumulative_costs actions pushed
              | Some d \<Rightarrow>
                  if expected_distance_from_goal < d
                  then astar_for problem current_state path cumulative_costs actions pushed
                  else astar_for problem current_state path cumulative_costs actions
                         (queue, visited, count + 1)))"

text \<open>
  \<^verbatim>\<open>while queue:\<close> with \<^verbatim>\<open>queue.get()\<close>, the goal test and the \<^verbatim>\<open>for\<close> loop as its
  body.  A plan is returned as \<open>Some path\<close>; the \<^verbatim>\<open>return\<close> after the loop (Python's
  \<^verbatim>\<open>None\<close>, after printing that there is no solution) is \<open>Inr None\<close>.
\<close>

partial_function (option) astar_while ::
  "('s::linorder, 'a::linorder) Problem \<Rightarrow> ('s, 'a) entry list \<Rightarrow> ('s \<rightharpoonup> int) \<Rightarrow> nat
     \<Rightarrow> (error + 'a list option) option"
where
  "astar_while problem queue visited count =
     (if pq_truthy queue then
        (case pq_get queue of
           None \<Rightarrow> None
         | Some ((expected_distance_from_goal, current_state, path, cumulative_costs), queue1) \<Rightarrow>
             if is_goal problem current_state then Some (Inr (Some path))
             else
               (case astar_for problem current_state path cumulative_costs
                       (available_actions problem current_state) (queue1, visited, count) of
                  Inl e \<Rightarrow> Some (Inl e)
                | Inr (queue', visited', count') \<Rightarrow> astar_while problem queue' visited' count'))
      else Some (Inr None))"

definition astar :: "('s::linorder, 'a::linorder) Problem \<Rightarrow> (error + 'a list option) option" where
  "astar problem =
     astar_while problem
       [(heuristic problem (initial_state problem) + 0, initial_state problem, [], 0)]
       [initial_state problem \<mapsto> 0] 0"

section \<open>Concrete problems\<close>

text \<open>
  \<^verbatim>\<open>VacuumProblem\<close> of lab2 (lab1's is the same without costs and heuristic).  A state
  is the robot's position and the tuple of dirty flags.
\<close>

definition VacuumProblem :: "(int \<times> bool list, string) Problem" where
  "VacuumProblem =
     \<lparr>initial_state = (0, [True, True]),
      available_actions = (\<lambda>state. [''Left'', ''Suck'', ''Right'']),
      do_action = (\<lambda>(robot, dirty) action.
         if action = ''Left'' then Inr (max (robot - 1) 0, dirty)
         else if action = ''Suck'' then
           (if 0 \<le> robot \<and> robot < int (length dirty)
              then Inr (robot, dirty[nat robot := False])
            else if - int (length dirty) \<le> robot \<and> robot < 0
              then Inr (robot, dirty[nat (int (length dirty) + robot) := False])
            else Inl IndexError)
         else if action = ''Right'' then Inr (min (robot + 1) (int (length dirty) - 1), dirty)
         else Inl InvalidAction),
      is_goal = (\<lambda>state. True \<notin> set (snd state)),
      action_cost = (\<lambda>state action. 1),
      heuristic = (\<lambda>state. int (length (filter id (snd state))))\<rparr>"

text \<open>
  A chain: state 0, then 1, then the goal 2, one action (numbered 0) where there is a
  next state; each step costs 1 and the heuristic is 0.
\<close>

definition p_chain :: "(nat, nat) Problem" where
  "p_chain =
     \<lparr>initial_state = 0,
      available_actions = (\<lambda>s. if s < 2 then [0] else []),
      do_action = (\<lambda>s a. if a = 0 \<and> s < 2 then Inr (s + 1) else Inl InvalidAction),
      is_goal = (\<lambda>s. s = 2),
      action_cost = (\<lambda>s a. 1),
      heuristic = (\<lambda>s. 0)\<rparr>"

text \<open>No goal: from state 0 the only action leads to state 1, which has no action.\<close>

definition p_dead :: "(nat, nat) Problem" where
  "p_dead =
     \<lparr>initial_state = 0,
      available_actions = (\<lambda>s. if s = 0 then [0] else []),
      do_action = (\<lambda>s a. if a = 0 \<and> s = 0 then Inr 1 else Inl InvalidAction),
      is_goal = (\<lambda>s. False),
      action_cost = (\<lambda>s a. 1),
      heuristic = (\<lambda>s. 0)\<rparr>"



text \<open>
  A direct but expensive action and a cheap detour: from state 0, action 0 reaches the
  goal 2 at cost 10 and action 1 reaches state 1 at cost 1; from state 1, action 0
  reaches the goal at cost 1.  The heuristic is 0 everywhere.
\<close>

definition p_detour :: "(nat, nat) Problem" where
  "p_detour =
     \<lparr>initial_state = 0,
      available_actions = (\<lambda>s. if s = 0 then [0, 1] else if s = 1 then [0] else []),
      do_action = (\<lambda>s a. if s = 0 \<and> a = 0 then Inr 2
                          else if s = 0 \<and> a = 1 then Inr 1
                          else if s = 1 \<and> a = 0 then Inr 2 else Inl InvalidAction),
      is_goal = (\<lambda>s. s = 2),
      action_cost = (\<lambda>s a. if s = 0 \<and> a = 0 then 10 else 1),
      heuristic = (\<lambda>s. 0)\<rparr>"

section \<open>Knowledge base (lab10, class KB)\<close>

text \<open>
  Atoms are the notebook's strings.  A clause is the pair (premise, conclusion) that
  \<^verbatim>\<open>KB.add\<close> appends.
\<close>

type_synonym atom = string
type_synonym clause = "atom list \<times> atom"

text \<open>
  What a reasoner reads from a KB: the contents of \<^verbatim>\<open>kb.clauses\<close> and of
  \<^verbatim>\<open>kb.symbols\<close>.
\<close>

record KB =
  clauses :: "clause list"
  symbols :: "atom set"

text \<open>
  \<^verbatim>\<open>add\<close> and \<^verbatim>\<open>copy\<close> mutate list and set objects in place, and two KB objects could
  share one.  The heap holds the list objects and the set objects by address; a KB
  object is the pair of addresses its attributes \<^verbatim>\<open>clauses\<close> and \<^verbatim>\<open>symbols\<close> hold.
  A method takes the heap and \<^verbatim>\<open>self\<close> and returns the new heap; on an object whose
  addresses are not in the heap it gives \<open>None\<close>.
\<close>

record heap =
  list_objects :: "clause list list"
  set_objects :: "atom set list"

record KB_ref =
  clauses_ref :: nat
  symbols_ref :: nat

definition valid :: "heap \<Rightarrow> KB_ref \<Rightarrow> bool" where
  "valid h k = (clauses_ref k < length (list_objects h) \<and> symbols_ref k < length (set_objects h))"

definition contents :: "heap \<Rightarrow> KB_ref \<Rightarrow> KB" where
  "contents h k = \<lparr>clauses = list_objects h ! clauses_ref k, symbols = set_objects h ! symbols_ref k\<rparr>"

text \<open>\<^verbatim>\<open>KB()\<close>: \<^verbatim>\<open>self.clauses = []; self.symbols = set()\<close>, two new objects.\<close>

definition KB_init :: "heap \<Rightarrow> KB_ref \<times> heap" where
  "KB_init h =
     (\<lparr>clauses_ref = length (list_objects h), symbols_ref = length (set_objects h)\<rparr>,
      h\<lparr>list_objects := list_objects h @ [[]], set_objects := set_objects h @ [{}]\<rparr>)"

text \<open>
  \<^verbatim>\<open>self.clauses.append((premise, conclusion)); self.symbols |= set(premise);
  self.symbols.add(conclusion)\<close>
\<close>

definition add :: "heap \<Rightarrow> KB_ref \<Rightarrow> atom list \<Rightarrow> atom \<Rightarrow> heap option" where
  "add h self premise conclusion =
     (if valid h self then
        let h1 = h\<lparr>list_objects := (list_objects h)
                     [clauses_ref self := list_objects h ! clauses_ref self @ [(premise, conclusion)]]\<rparr>;
            h2 = h1\<lparr>set_objects := (set_objects h1)
                     [symbols_ref self := set_objects h1 ! symbols_ref self \<union> set premise]\<rparr>;
            h3 = h2\<lparr>set_objects := (set_objects h2)
                     [symbols_ref self := insert conclusion (set_objects h2 ! symbols_ref self)]\<rparr>
        in Some h3
      else None)"

text \<open>
  \<^verbatim>\<open>result = KB(); result.clauses.extend(self.clauses);
  result.symbols |= self.symbols; return result\<close>
\<close>

definition copy :: "heap \<Rightarrow> KB_ref \<Rightarrow> (KB_ref \<times> heap) option" where
  "copy h self =
     (if valid h self then
        let (result, h1) = KB_init h;
            h2 = h1\<lparr>list_objects := (list_objects h1)
                     [clauses_ref result :=
                        list_objects h1 ! clauses_ref result @ list_objects h1 ! clauses_ref self]\<rparr>;
            h3 = h2\<lparr>set_objects := (set_objects h2)
                     [symbols_ref result :=
                        set_objects h2 ! symbols_ref result \<union> set_objects h2 ! symbols_ref self]\<rparr>
        in Some (result, h3)
      else None)"

section \<open>Reasoners (lab10)\<close>

text \<open>
  A reasoner holds a reference to a KB that is not mutated while it runs; the functions
  below take the state of that KB object (its clause list and symbol set).
\<close>

subsection \<open>ForwardChainingReasoner\<close>

text \<open>
  \<^verbatim>\<open>count\<close> is a dict keyed by \<^verbatim>\<open>(tuple(premise), conclusion)\<close>; a dict keeps its keys
  in insertion order and an assignment to an existing key keeps the key's position, so it
  is an association list with distinct keys, written by \<open>dict_set\<close>.
\<close>

type_synonym count_dict = "(clause \<times> int) list"

fun dict_set :: "('k \<times> 'v) list \<Rightarrow> 'k \<Rightarrow> 'v \<Rightarrow> ('k \<times> 'v) list" where
  "dict_set [] k v = [(k, v)]"
| "dict_set ((k', v') # d) k v = (if k' = k then (k, v) # d else (k', v') # dict_set d k v)"

text \<open>
  The body of \<^verbatim>\<open>for clause in count\<close> for the popped atom \<open>p\<close>, over the keys that
  are still to be visited:
  \<^verbatim>\<open>
  if (p not in clause[0]): continue
  count[clause] -= 1
  if not count[clause] and clause[1] not in was_in_agenda:
      was_in_agenda.add(clause[1]); agenda.append(clause[1])
  \<close>
\<close>

fun infer_for ::
  "atom \<Rightarrow> clause list \<Rightarrow> count_dict \<times> atom set \<times> atom list
     \<Rightarrow> error + count_dict \<times> atom set \<times> atom list"
where
  "infer_for p [] st = Inr st"
| "infer_for p (clause # rest) (count, was_in_agenda, agenda) =
     (if p \<notin> set (fst clause) then infer_for p rest (count, was_in_agenda, agenda)
      else case map_of count clause of
             None \<Rightarrow> Inl KeyError
           | Some n \<Rightarrow>
               let count' = dict_set count clause (n - 1) in
               if n - 1 = 0 \<and> snd clause \<notin> was_in_agenda
               then infer_for p rest (count', insert (snd clause) was_in_agenda, agenda @ [snd clause])
               else infer_for p rest (count', was_in_agenda, agenda))"

text \<open>
  \<^verbatim>\<open>while agenda: p = agenda.pop(); inferred[p] = True; for clause in count: ...\<close>
  The loop is not bounded by anything in its text, so it is a partial function:
  \<open>None\<close> is a run that does not return.
\<close>

partial_function (option) infer_while ::
  "count_dict \<Rightarrow> (atom \<rightharpoonup> bool) \<Rightarrow> atom list \<Rightarrow> atom set \<Rightarrow> (error + (atom \<rightharpoonup> bool)) option"
where
  "infer_while count inferred agenda was_in_agenda =
     (if agenda \<noteq> [] then
        let p = last agenda;
            agenda1 = butlast agenda;
            inferred1 = inferred(p \<mapsto> True)
        in case infer_for p (map fst count) (count, was_in_agenda, agenda1) of
             Inl e \<Rightarrow> Some (Inl e)
           | Inr (count', was', agenda') \<Rightarrow> infer_while count' inferred1 agenda' was'
      else Some (Inr inferred))"

text \<open>
  \<^verbatim>\<open>_infer\<close>: the initial dicts, agenda and set, then the loop.  The result is the final
  \<^verbatim>\<open>inferred\<close> dict; the reasoner keeps the set of its keys whose value is true, and
  \<^verbatim>\<open>query\<close> is membership in that set.
\<close>

definition infer :: "KB \<Rightarrow> (error + (atom \<rightharpoonup> bool)) option" where
  "infer kb =
     (let count = fold (\<lambda>clause d. dict_set d clause (int (length (fst clause)))) (clauses kb) [];
          inferred = (\<lambda>symbol. if symbol \<in> symbols kb then Some False else None);
          agenda = map snd (filter (\<lambda>c. fst c = []) (clauses kb));
          was_in_agenda = set agenda
      in infer_while count inferred agenda was_in_agenda)"

definition fc_query :: "KB \<Rightarrow> atom \<Rightarrow> (error + bool) option" where
  "fc_query kb symbol =
     map_option (map_sum id (\<lambda>inferred. symbol \<in> {s. inferred s = Some True})) (infer kb)"

subsection \<open>BackwardChainingReasoner\<close>

text \<open>
  \<^verbatim>\<open>self.inferred\<close> maps a symbol to \<^verbatim>\<open>None\<close>, \<^verbatim>\<open>True\<close> or \<^verbatim>\<open>False\<close>: a map into
  \<open>bool option\<close>.  \<^verbatim>\<open>__init__\<close> enters every symbol of the KB with \<^verbatim>\<open>None\<close> and then
  every conclusion of a clause with an empty premise with \<^verbatim>\<open>True\<close>.
\<close>

type_synonym memo = "atom \<rightharpoonup> bool option"

definition BackwardChainingReasoner_init :: "KB \<Rightarrow> memo" where
  "BackwardChainingReasoner_init kb =
     fold (\<lambda>clause inferred. inferred(snd clause \<mapsto> Some True))
          (filter (\<lambda>c. fst c = []) (clauses kb))
          (\<lambda>symbol. if symbol \<in> symbols kb then Some None else None)"

text \<open>
  \<^verbatim>\<open>recursive_query\<close> recurses from inside two nested loops and mutates the memo and the
  set \<^verbatim>\<open>to_check\<close> on the way.  The three levels are one function over a task:
  \<open>Query symbol\<close> is the call \<^verbatim>\<open>recursive_query(symbol, to_check)\<close>, \<open>ForClauses cs\<close> is
  the loop over the clauses that conclude the symbol, from \<open>cs\<close> on (its result is
  \<^verbatim>\<open>one_clause_met\<close>), \<open>ForPremises ps\<close> is the loop over a clause's premises, from
  \<open>ps\<close> on (its result is \<^verbatim>\<open>all_premises_met\<close>).  The state is the pair of the memo
  and \<^verbatim>\<open>to_check\<close>.  The recursion is not bounded by anything in its text, so the function
  is partial: \<open>None\<close> is a call that does not return.
\<close>

datatype task = Query atom | ForClauses "clause list" | ForPremises "atom list"

partial_function (option) recursive_query ::
  "clause list \<Rightarrow> task \<Rightarrow> memo \<times> atom set \<Rightarrow> (bool \<times> memo \<times> atom set) option"
where
  "recursive_query cls t st =
    (case t of
       Query symbol \<Rightarrow>
         (case fst st symbol of
            Some (Some v) \<Rightarrow> Some (v, fst st, snd st - {symbol})
          | _ \<Rightarrow>
            Option.bind (recursive_query cls (ForClauses (filter (\<lambda>c. snd c = symbol) cls)) st)
              (\<lambda>(one_clause_met, inferred, to_check).
                 Some (one_clause_met, inferred(symbol \<mapsto> Some one_clause_met), to_check - {symbol})))
     | ForClauses cs \<Rightarrow>
         (case cs of
            [] \<Rightarrow> Some (False, st)
          | clause # cs' \<Rightarrow>
            Option.bind (recursive_query cls (ForPremises (fst clause)) st)
              (\<lambda>(all_premises_met, st').
                 if all_premises_met then Some (True, st')
                 else recursive_query cls (ForClauses cs') st'))
     | ForPremises ps \<Rightarrow>
         (case ps of
            [] \<Rightarrow> Some (True, st)
          | premise # ps' \<Rightarrow>
            if premise \<in> snd st then Some (False, st)
            else Option.bind (recursive_query cls (Query premise) (fst st, insert premise (snd st)))
              (\<lambda>(r, st'). if r then recursive_query cls (ForPremises ps') st' else Some (False, st'))))"

text \<open>
  \<^verbatim>\<open>set(symbol)\<close> of a string is the set of its one-character substrings; it is the
  symbol itself only when the symbol has one character.
\<close>

definition set_of_str :: "string \<Rightarrow> string set" where
  "set_of_str s = (\<lambda>c. [c]) ` set s"

text \<open>\<^verbatim>\<open>query\<close>, returning the answer and the memo the reasoner is left with.\<close>

definition query :: "KB \<Rightarrow> memo \<Rightarrow> atom \<Rightarrow> (bool \<times> memo) option" where
  "query kb inferred symbol =
     (case inferred symbol of
        Some (Some v) \<Rightarrow> Some (v, inferred)
      | _ \<Rightarrow> if symbol \<notin> symbols kb then Some (False, inferred)
             else map_option (\<lambda>(r, m, T). (r, m))
                    (recursive_query (clauses kb) (Query symbol) (inferred, set_of_str symbol)))"

subsection \<open>Minimal model\<close>

text \<open>
  The atoms a Horn-clause KB entails are the least set closed under its clauses: the
  conclusion of a clause is entailed when all its premises are.
\<close>

inductive entailed :: "clause list \<Rightarrow> atom \<Rightarrow> bool" for cls where
  step: "(ps, c) \<in> set cls \<Longrightarrow> (\<forall>p\<in>set ps. entailed cls p) \<Longrightarrow> entailed cls c"

subsection \<open>Termination measure of the backward-chaining recursion\<close>

text \<open>
  The level of a task and what is left of its loop; the atoms that occur in premises;
  the tasks that stem from the KB's clauses; and the set \<^verbatim>\<open>to_check\<close> a task leaves
  behind.
\<close>

fun task_kind :: "task \<Rightarrow> nat" where
  "task_kind (Query _) = 2"
| "task_kind (ForClauses _) = 1"
| "task_kind (ForPremises _) = 0"

fun task_len :: "task \<Rightarrow> nat" where
  "task_len (Query _) = 0"
| "task_len (ForClauses cs) = length cs"
| "task_len (ForPremises ps) = length ps"

definition premise_atoms :: "clause list \<Rightarrow> atom set" where
  "premise_atoms cls = (\<Union>c\<in>set cls. set (fst c))"

fun task_ok :: "clause list \<Rightarrow> task \<Rightarrow> bool" where
  "task_ok cls (Query _) = True"
| "task_ok cls (ForClauses cs) = (set cs \<subseteq> set cls)"
| "task_ok cls (ForPremises ps) = (set ps \<subseteq> premise_atoms cls)"

fun to_check_after :: "task \<Rightarrow> atom set \<Rightarrow> atom set" where
  "to_check_after (Query symbol) T = T - {symbol}"
| "to_check_after _ T = T"

subsection \<open>Concrete knowledge bases\<close>

text \<open>
  \<open>x\<close> follows from the fact \<open>a\<close>, \<open>y\<close> from \<open>x\<close>, \<open>r\<close> from \<open>x\<close> and \<open>y\<close>; the
  first clause for \<open>x\<close> goes through \<open>y\<close>, which is the cycle.
\<close>

definition kb_cycle :: KB where
  "kb_cycle = \<lparr>clauses = [([''x'', ''y''], ''r''), ([''y''], ''x''), ([''a''], ''x''),
                          ([''x''], ''y''), ([], ''a'')],
               symbols = {''x'', ''y'', ''r'', ''a''}\<rparr>"

text \<open>The fact \<open>a\<close> added twice, and a clause that also needs \<open>b\<close>.\<close>

definition kb_twice :: KB where
  "kb_twice = \<lparr>clauses = [([], ''a''), ([], ''a''), ([''a'', ''b''], ''c'')],
               symbols = {''a'', ''b'', ''c''}\<rparr>"

text \<open>A clause whose premise is its own conclusion.\<close>

definition kb_loop :: KB where
  "kb_loop = \<lparr>clauses = [([''p''], ''p'')], symbols = {''p''}\<rparr>"

section \<open>Invariants of the search loops\<close>

text \<open>
  Every entry of the breadth-first deque holds a reachable state and a path that leads
  to it from the initial state.
\<close>

definition queue_ok :: "('s, 'a) Problem \<Rightarrow> ('s \<times> 'a list) list \<Rightarrow> bool" where
  "queue_ok p Q = list_all (\<lambda>(s, pth). s \<in> reachable p \<and> run_plan p (initial_state p) pth = Inr s) Q"

text \<open>A Problem whose \<^verbatim>\<open>do_action\<close> does not raise the invalid-action error on a listed action.\<close>

definition listed_ok :: "('s, 'a) Problem \<Rightarrow> bool" where
  "listed_ok p = (\<forall>s a. a \<in> set (available_actions p s) \<longrightarrow> do_action p s a \<noteq> Inl InvalidAction)"

text \<open>
  For the loop of a depth-first activation: the moves still to be tried are actions of
  the last state of the list (or that state is a goal and the loop is about to return);
  and what the loop leaves behind: the visited set has only grown, the list is not
  empty, and when its last state is not a goal the list and the path are what they were
  before the loop.  An error the loop ends with is not the invalid-action error.
\<close>

definition dfs_pre :: "('s, 'a) Problem \<Rightarrow> 'a list \<Rightarrow> 's list \<times> 'a list \<times> 's set \<Rightarrow> bool" where
  "dfs_pre p moves st =
     (listed_ok p \<and> (is_goal p (last (fst st)) \<or> set moves \<subseteq> set (available_actions p (last (fst st)))))"

definition dfs_post ::
  "('s, 'a) Problem \<Rightarrow> 'a list \<Rightarrow> 's list \<times> 'a list \<times> 's set
     \<Rightarrow> error + 's list \<times> 'a list \<times> 's set \<Rightarrow> bool"
where
  "dfs_post p moves st r =
     (case r of
        Inl e \<Rightarrow> dfs_pre p moves st \<longrightarrow> e \<noteq> InvalidAction
      | Inr (los', path', visited') \<Rightarrow>
          snd (snd st) \<subseteq> visited' \<and> los' \<noteq> []
          \<and> (\<not> is_goal p (last los') \<longrightarrow> los' = fst st \<and> path' = fst (snd st)))"

section \<open>Theorems\<close>

subsection \<open>Copies of a knowledge base\<close>

text \<open>
  C8.  For every KB object \<open>k\<close> of a heap and every clause \<open>(p, c)\<close>:
  \<open>k2 = k.copy()\<close> followed by \<open>k2.add(p, c)\<close> both succeed, the contents of
  \<open>k.clauses\<close> and \<open>k.symbols\<close> are exactly as before the copy, the clause list of
  \<open>k2\<close> contains \<open>(p, c)\<close>, and the symbol set of \<open>k2\<close> contains the symbols of \<open>k\<close>,
  the atoms of \<open>p\<close> and \<open>c\<close>.
\<close>

theorem copy_add_frame:
  assumes "valid h k"
  shows "\<exists>k2 h1 h2. copy h k = Some (k2, h1) \<and> add h1 k2 p c = Some h2
           \<and> contents h2 k = contents h k
           \<and> (p, c) \<in> set (clauses (contents h2 k2))
           \<and> symbols (contents h k) \<union> set p \<union> {c} \<subseteq> symbols (contents h2 k2)"
  using assms
  by (auto simp: copy_def add_def KB_init_def valid_def contents_def Let_def nth_append)

theorem copy_add_frame_witness:
  "valid \<lparr>list_objects = [[([''p''], ''q'')]], set_objects = [{''p'', ''q''}]\<rparr>
         \<lparr>clauses_ref = 0, symbols_ref = 0\<rparr>
   \<and> (\<exists>k2 h1 h2.
         copy \<lparr>list_objects = [[([''p''], ''q'')]], set_objects = [{''p'', ''q''}]\<rparr>
              \<lparr>clauses_ref = 0, symbols_ref = 0\<rparr> = Some (k2, h1)
         \<and> add h1 k2 [''u''] ''w'' = Some h2
         \<and> contents h2 \<lparr>clauses_ref = 0, symbols_ref = 0\<rparr>
             = \<lparr>clauses = [([''p''], ''q'')], symbols = {''p'', ''q''}\<rparr>
         \<and> ([''u''], ''w'') \<in> set (clauses (contents h2 k2))
         \<and> {''p'', ''q'', ''u'', ''w''} \<subseteq> symbols (contents h2 k2))"
proof -
  have v: "valid \<lparr>list_objects = [[([''p''], ''q'')]], set_objects = [{''p'', ''q''}]\<rparr>
                 \<lparr>clauses_ref = 0, symbols_ref = 0\<rparr>"
    by (simp add: valid_def)
  from copy_add_frame [OF v, of "[''u'']" "''w''"] v show ?thesis
    by (auto simp: contents_def)
qed

subsection \<open>Breadth-first search\<close>

lemma run_plan_snoc:
  "run_plan p s xs = Inr s' \<Longrightarrow> do_action p s' a = Inr s'' \<Longrightarrow> run_plan p s (xs @ [a]) = Inr s''"
  by (induction xs arbitrary: s) (auto split: sum.splits)

lemma queue_ok_append [simp]: "queue_ok p (Q @ Q') = (queue_ok p Q \<and> queue_ok p Q')"
  by (simp add: queue_ok_def)

lemma card_diff_insert:
  assumes "finite R" "x \<in> R" "x \<notin> V"
  shows "Suc (card (R - insert x V)) = card (R - V)"
proof -
  have "R - V = insert x (R - insert x V)" using assms by auto
  moreover have "x \<notin> R - insert x V" by simp
  moreover have "finite (R - insert x V)" using assms by simp
  ultimately show ?thesis by (metis card_insert_disjoint)
qed

lemma bfs_for_ok:
  assumes fin: "finite (reachable p)"
    and cs: "cs \<in> reachable p" "run_plan p (initial_state p) cp = Inr cs"
  shows "set moves \<subseteq> set (available_actions p cs) \<Longrightarrow>
         (\<forall>a\<in>set moves. \<exists>s'. do_action p cs a = Inr s') \<Longrightarrow>
         V \<subseteq> reachable p \<Longrightarrow> queue_ok p Q \<Longrightarrow>
         \<exists>V' Q'. bfs_for p cs cp moves (V, Q) = Inr (V', Q') \<and> V' \<subseteq> reachable p \<and> queue_ok p Q'
            \<and> 2 * card (reachable p - V') + length Q' \<le> 2 * card (reachable p - V) + length Q
            \<and> length Q \<le> length Q'"
proof (induction moves arbitrary: V Q)
  case Nil
  then show ?case by simp
next
  case (Cons move moves)
  from Cons.prems obtain ns where ns: "do_action p cs move = Inr ns" by auto
  have nsR: "ns \<in> reachable p"
    using reachable.step [OF cs(1) _ ns] Cons.prems(1) by simp
  show ?case
  proof (cases "ns \<in> V")
    case True
    then show ?thesis using Cons ns by simp
  next
    case False
    have q: "queue_ok p (Q @ [(ns, cp @ [move])])"
      using Cons.prems(4) nsR run_plan_snoc [OF cs(2) ns] by (simp add: queue_ok_def)
    have "\<exists>V' Q'. bfs_for p cs cp moves (insert ns V, Q @ [(ns, cp @ [move])]) = Inr (V', Q')
            \<and> V' \<subseteq> reachable p \<and> queue_ok p Q'
            \<and> 2 * card (reachable p - V') + length Q'
                 \<le> 2 * card (reachable p - insert ns V) + length (Q @ [(ns, cp @ [move])])
            \<and> length (Q @ [(ns, cp @ [move])]) \<le> length Q'"
      using Cons.prems nsR q by (intro Cons.IH) auto
    then obtain V' Q' where r:
      "bfs_for p cs cp moves (insert ns V, Q @ [(ns, cp @ [move])]) = Inr (V', Q')"
      "V' \<subseteq> reachable p" "queue_ok p Q'"
      "2 * card (reachable p - V') + length Q'
         \<le> 2 * card (reachable p - insert ns V) + length (Q @ [(ns, cp @ [move])])"
      "length (Q @ [(ns, cp @ [move])]) \<le> length Q'"
      by blast
    have "Suc (card (reachable p - insert ns V)) = card (reachable p - V)"
      using card_diff_insert [OF fin nsR False] .
    then show ?thesis using r ns False by auto
  qed
qed

lemma bfs_while_exhausts:
  assumes fin: "finite (reachable p)"
    and nogoal: "\<forall>s\<in>reachable p. \<not> is_goal p s"
    and ok: "\<forall>s\<in>reachable p. \<forall>a\<in>set (available_actions p s). \<exists>s'. do_action p s a = Inr s'"
  shows "cs \<in> reachable p \<Longrightarrow> run_plan p (initial_state p) cp = Inr cs \<Longrightarrow>
         V \<subseteq> reachable p \<Longrightarrow> queue_ok p Q \<Longrightarrow>
         \<exists>s path V'. bfs_while p cs cp V Q = Some (Inr (s, path, V', []))
            \<and> s \<in> reachable p \<and> run_plan p (initial_state p) path = Inr s"
proof (induction n \<equiv> "2 * card (reachable p - V) + length Q" arbitrary: cs cp V Q rule: less_induct)
  case less
  have ng: "\<not> is_goal p cs" using nogoal less.prems(1) by blast
  show ?case
  proof (cases "Q = []")
    case True
    then show ?thesis using less.prems
      by (subst bfs_while.simps) simp
  next
    case False
    have "\<exists>V' Q'. bfs_for p cs cp (available_actions p cs) (V, Q) = Inr (V', Q')
            \<and> V' \<subseteq> reachable p \<and> queue_ok p Q'
            \<and> 2 * card (reachable p - V') + length Q' \<le> 2 * card (reachable p - V) + length Q
            \<and> length Q \<le> length Q'"
      using less.prems ok by (intro bfs_for_ok [OF fin]) auto
    then obtain V' Q' where f:
      "bfs_for p cs cp (available_actions p cs) (V, Q) = Inr (V', Q')"
      "V' \<subseteq> reachable p" "queue_ok p Q'"
      "2 * card (reachable p - V') + length Q' \<le> 2 * card (reachable p - V) + length Q"
      "length Q \<le> length Q'"
      by blast
    from f(5) False obtain s pth rest where Q': "Q' = (s, pth) # rest"
      by (cases Q') auto
    have s: "s \<in> reachable p" "run_plan p (initial_state p) pth = Inr s" "queue_ok p rest"
      using f(3) Q' by (auto simp: queue_ok_def)
    have "2 * card (reachable p - V') + length rest < 2 * card (reachable p - V) + length Q"
      using f(4) Q' by simp
    from less.hyps [OF this s(1) s(2) f(2) s(3)]
    obtain s2 path V2 where
      "bfs_while p s pth V' rest = Some (Inr (s2, path, V2, []))"
      "s2 \<in> reachable p" "run_plan p (initial_state p) path = Inr s2"
      by blast
    then show ?thesis using ng False f(1) Q'
      by (subst bfs_while.simps) simp
  qed
qed

text \<open>
  C5 (counterexample).  \<open>p_dead\<close> has no goal state at all and two reachable states.
  \<^verbatim>\<open>bfs\<close> returns the list \<open>[0]\<close>, the path to the last state it dequeued: a list of
  actions like any plan, and not a failure value.
\<close>

lemma reachable_p_dead: "s \<in> reachable p_dead \<Longrightarrow> s = 0 \<or> s = 1"
  by (induction rule: reachable.induct) (auto simp: p_dead_def split: if_splits)

lemma finite_reachable_p_dead: "finite (reachable p_dead)"
proof -
  have "reachable p_dead \<subseteq> {0, 1}"
    using reachable_p_dead by auto
  then show ?thesis
    by (rule finite_subset) simp
qed

theorem bfs_dead_returns_path:
  "finite (reachable p_dead) \<and> (\<forall>s. \<not> is_goal p_dead s)
   \<and> bfs p_dead = Some (Inr [0]) \<and> run_plan p_dead 0 [0] = Inr 1"
  using finite_reachable_p_dead
  by (simp add: bfs_def p_dead_def bfs_while.simps)

text \<open>
  C5 (amended).  For every Problem with a finite reachable state space, no reachable
  goal state and a \<^verbatim>\<open>do_action\<close> that does not raise on the listed actions of
  reachable states, \<^verbatim>\<open>bfs\<close> returns: its loop ends with the deque empty, and the
  result is the action sequence that leads from the initial state to the state dequeued
  last, which is not a goal.
\<close>

theorem bfs_exhausts_frontier:
  assumes "finite (reachable p)"
    and "\<forall>s\<in>reachable p. \<not> is_goal p s"
    and "\<forall>s\<in>reachable p. \<forall>a\<in>set (available_actions p s). \<exists>s'. do_action p s a = Inr s'"
  shows "\<exists>s path visited.
           bfs_while p (initial_state p) [] {initial_state p} [(initial_state p, [])]
             = Some (Inr (s, path, visited, []))
           \<and> bfs p = Some (Inr path)
           \<and> run_plan p (initial_state p) path = Inr s \<and> \<not> is_goal p s"
proof -
  have "\<exists>s path V'. bfs_while p (initial_state p) [] {initial_state p} [(initial_state p, [])]
             = Some (Inr (s, path, V', []))
            \<and> s \<in> reachable p \<and> run_plan p (initial_state p) path = Inr s"
    by (rule bfs_while_exhausts [OF assms]) (auto simp: queue_ok_def reachable.init)
  then show ?thesis using assms(2)
    by (auto simp: bfs_def)
qed


theorem bfs_exhausts_frontier_witness:
  "\<exists>s path visited.
     bfs_while p_dead (initial_state p_dead) [] {initial_state p_dead} [(initial_state p_dead, [])]
       = Some (Inr (s, path, visited, []))
     \<and> bfs p_dead = Some (Inr path)
     \<and> run_plan p_dead (initial_state p_dead) path = Inr s \<and> \<not> is_goal p_dead s"
proof -
  have fin: "finite (reachable p_dead)"
    by (rule finite_reachable_p_dead)
  have ng: "\<forall>s\<in>reachable p_dead. \<not> is_goal p_dead s"
    by (simp add: p_dead_def)
  have ok: "\<forall>s\<in>reachable p_dead. \<forall>a\<in>set (available_actions p_dead s).
              \<exists>s'. do_action p_dead s a = Inr s'"
    by (simp add: p_dead_def)
  show ?thesis
    by (rule bfs_exhausts_frontier [OF fin ng ok])
qed

text \<open>
  C7 (evaluation at the failing input).  On the chain \<open>p_chain\<close> the goal is two
  actions away.  \<^verbatim>\<open>bfs\<close> returns \<open>[0]\<close>, which leads to state 1, not a goal: the
  initial state is dequeued first (it was enqueued as well as made current), state 1 is
  dequeued next, the deque is then empty and the loop condition ends the loop before
  state 1 is expanded.
\<close>

theorem bfs_chain_stops_early:
  "bfs p_chain = Some (Inr [0])
   \<and> run_plan p_chain 0 [0] = Inr 1 \<and> \<not> is_goal p_chain 1
   \<and> run_plan p_chain 0 [0, 0] = Inr 2 \<and> is_goal p_chain 2"
  by (simp add: bfs_def p_chain_def bfs_while.simps)

subsection \<open>Depth-first search\<close>

lemma dfs_for_inv:
  assumes "dfs_for p moves st = Some r"
  shows "fst st \<noteq> [] \<longrightarrow> dfs_post p moves st r"
proof (rule dfs_for.raw_induct
         [where P = "\<lambda>p moves st r. fst st \<noteq> [] \<longrightarrow> dfs_post p moves st r", OF _ assms],
       goal_cases)
  case (1 f p moves st y)
  show ?case
  proof
    assume ne: "fst st \<noteq> []"
    obtain L P V where st: "st = (L, P, V)" by (cases st) auto
    have L: "L \<noteq> []" using ne st by simp
    have tL: "top L = Inr (last L)" using L by (simp add: top_def)
    show "dfs_post p moves st y"
    proof (cases moves)
      case Nil
      then show ?thesis using 1(2) L st by (auto simp: dfs_post_def)
    next
      case (Cons move moves')
      show ?thesis
      proof (cases "is_goal p (last L) \<or> length P > 100")
        case True
        then show ?thesis using 1(2) L st Cons tL by (auto simp: dfs_post_def)
      next
        case stop: False
        have pre': "dfs_pre p moves st \<Longrightarrow> dfs_pre p moves' (L, P, V')" for V'
          using stop st Cons by (auto simp: dfs_pre_def)
        show ?thesis
        proof (cases "do_action p (last L) move")
          case (Inl e)
          then have "y = Inl e" using 1(2) st Cons stop tL by auto
          moreover have "dfs_pre p moves st \<Longrightarrow> e \<noteq> InvalidAction"
            using Inl stop st Cons by (auto simp: dfs_pre_def listed_ok_def)
          ultimately show ?thesis by (auto simp: dfs_post_def)
        next
          case (Inr ns)
          show ?thesis
          proof (cases "ns \<in> V")
            case True
            then have "f p moves' st = Some y"
              using 1(2) st Cons stop Inr tL by auto
            from 1(1) [OF this] ne have "dfs_post p moves' st y" by simp
            then show ?thesis using pre' st
              by (auto simp: dfs_post_def split: sum.splits)
          next
            case False
            then obtain r1 where r1:
              "f p (available_actions p ns) (L @ [ns], P @ [move], insert ns V) = Some r1"
              and k: "(case r1 of
                      Inl e \<Rightarrow> Some (Inl e)
                    | Inr (los', path', visited') \<Rightarrow>
                        (case top los' of
                           Inl e \<Rightarrow> Some (Inl e)
                         | Inr t \<Rightarrow>
                             if \<not> is_goal p t then
                               (if path' = [] \<or> los' = [] then Some (Inl IndexError)
                                else f p moves' (butlast los', butlast path', visited'))
                             else f p moves' (los', path', visited'))) = Some y"
              using 1(2) st Cons stop Inr tL by (auto split: Option.bind_splits)
            have p1: "dfs_post p (available_actions p ns) (L @ [ns], P @ [move], insert ns V) r1"
              using 1(1) [OF r1] by simp
            have pre1: "dfs_pre p moves st \<Longrightarrow>
                        dfs_pre p (available_actions p ns) (L @ [ns], P @ [move], insert ns V)"
              by (auto simp: dfs_pre_def)
            show ?thesis
            proof (cases r1)
              case (Inl e)
              then show ?thesis using k p1 pre1 by (auto simp: dfs_post_def)
            next
              case r1': (Inr t1)
              obtain L1 P1 V1 where t1: "t1 = (L1, P1, V1)" by (cases t1) auto
              have s1: "insert ns V \<subseteq> V1" "L1 \<noteq> []"
                "\<not> is_goal p (last L1) \<Longrightarrow> L1 = L @ [ns] \<and> P1 = P @ [move]"
                using p1 r1' t1 by (auto simp: dfs_post_def)
              show ?thesis
              proof (cases "is_goal p (last L1)")
                case True
                then have "f p moves' (L1, P1, V1) = Some y"
                  using k r1' t1 s1(2) by (simp add: top_def)
                from 1(1) [OF this] s1(2) have "dfs_post p moves' (L1, P1, V1) y" by simp
                moreover have "dfs_pre p moves st \<Longrightarrow> dfs_pre p moves' (L1, P1, V1)"
                  using True by (auto simp: dfs_pre_def)
                ultimately show ?thesis using True s1(1) st
                  by (auto simp: dfs_post_def split: sum.splits)
              next
                case False
                then have "f p moves' (L, P, V1) = Some y"
                  using k r1' t1 s1 by (simp add: top_def)
                from 1(1) [OF this] L have "dfs_post p moves' (L, P, V1) y" by simp
                then show ?thesis using s1(1) st pre' [of V1]
                  by (auto simp: dfs_post_def split: sum.splits)
              qed
            qed
          qed
        qed
      qed
    qed
  qed
qed








lemma dfs_no_invalid:
  assumes "listed_ok p"
  shows "dfs p \<noteq> Some (Inl InvalidAction)"
proof
  assume "dfs p = Some (Inl InvalidAction)"
  then obtain z where z:
    "dfs_for p (available_actions p (initial_state p))
       ([initial_state p], [], {initial_state p}) = Some z"
    "map_sum id (\<lambda>(list_of_occured_states, path, visited_states). path) z = Inl InvalidAction"
    by (auto simp: dfs_def dfs_recurrence_def top_def)
  from z(2) have "z = Inl InvalidAction" by (cases z) auto
  with dfs_for_inv [OF z(1)] show False
    using assms by (simp add: dfs_post_def dfs_pre_def)
qed


subsection \<open>A*\<close>

text \<open>
  C2 (evaluation at the failing input).  \<open>p_dead\<close> has two reachable states and no
  goal.  After both are expanded the queue is empty; \<^verbatim>\<open>while queue:\<close> still holds and
  \<^verbatim>\<open>queue.get()\<close> blocks: \<^verbatim>\<open>astar\<close> does not return.
\<close>

theorem astar_blocks:
  "(\<forall>s. \<not> is_goal p_dead s) \<and> astar p_dead = None"
  by (simp add: astar_def p_dead_def astar_while.simps pq_truthy_def pq_get_def Let_def)

text \<open>
  C3 (evaluation at the failing input).  The first expansion of \<^verbatim>\<open>astar(VacuumProblem())\<close>:
  the entry pushed for \<open>Suck\<close> has priority 1, while the cost of its path is 1 and the
  heuristic of its state is 1; the entry pushed for \<open>Right\<close> has priority 2 with cost 1
  and heuristic 2.
\<close>

theorem astar_priority_vacuum:
  "astar_for VacuumProblem (0, [True, True]) [] 0 [''Left'', ''Suck'', ''Right'']
     ([], [(0, [True, True]) \<mapsto> 0], 0)
   = Inr ([(1, (0, [False, True]), [''Suck''], 1), (2, (1, [True, True]), [''Right''], 1)],
          [(0, [True, True]) \<mapsto> 0, (0, [False, True]) \<mapsto> 1, (1, [True, True]) \<mapsto> 2], 3)
   \<and> heuristic VacuumProblem (0, [False, True]) = 1
   \<and> plan_cost VacuumProblem (0, [True, True]) [''Suck''] = 1
   \<and> (1::int) \<noteq> plan_cost VacuumProblem (0, [True, True]) [''Suck'']
                  + heuristic VacuumProblem (0, [False, True])"
  by (simp add: VacuumProblem_def Let_def)

text \<open>
  C4 (evaluation at the failing input).  In \<open>p_detour\<close> all costs are positive and the
  heuristic is 0 (admissible and consistent).  \<^verbatim>\<open>astar\<close> returns the plan \<open>[0]\<close> of
  cost 10, while the plan \<open>[1, 0]\<close> reaches the goal at cost 2.
\<close>

theorem astar_suboptimal:
  "(\<forall>s a. 0 < action_cost p_detour s a) \<and> (\<forall>s. heuristic p_detour s = 0)
   \<and> astar p_detour = Some (Inr (Some [0]))
   \<and> run_plan p_detour 0 [0] = Inr 2 \<and> plan_cost p_detour 0 [0] = 10
   \<and> run_plan p_detour 0 [1, 0] = Inr 2 \<and> is_goal p_detour 2 \<and> plan_cost p_detour 0 [1, 0] = 2"
  by (simp add: astar_def p_detour_def astar_while.simps pq_truthy_def pq_get_def Let_def)

subsection \<open>Actions passed to do-action\<close>

lemma bfs_for_no_invalid:
  "\<forall>a\<in>set moves. do_action p cs a \<noteq> Inl InvalidAction \<Longrightarrow>
   bfs_for p cs cp moves st \<noteq> Inl InvalidAction"
proof (induction moves arbitrary: st)
  case Nil
  then show ?case by simp
next
  case (Cons move moves)
  obtain V Q where st: "st = (V, Q)" by (cases st) auto
  show ?case using Cons st
    by (cases "do_action p cs move") (auto split: if_splits)
qed

lemma bfs_while_no_invalid:
  assumes "bfs_while p cs cp V Q = Some r"
  shows "listed_ok p \<longrightarrow> r \<noteq> Inl InvalidAction"
proof (rule bfs_while.raw_induct
         [where P = "\<lambda>p cs cp V Q r. listed_ok p \<longrightarrow> r \<noteq> Inl InvalidAction", OF _ assms],
       goal_cases)
  case (1 f p cs cp V Q y)
  show ?case
  proof
    assume l: "listed_ok p"
    have nf: "bfs_for p cs cp (available_actions p cs) (V, Q) \<noteq> Inl InvalidAction"
      using l by (intro bfs_for_no_invalid) (auto simp: listed_ok_def)
    show "y \<noteq> Inl InvalidAction"
      using 1(2) nf 1(1) l
      by (auto split: if_splits sum.splits list.splits prod.splits)
  qed
qed

lemma bfs_no_invalid:
  assumes "listed_ok p"
  shows "bfs p \<noteq> Some (Inl InvalidAction)"
proof
  assume "bfs p = Some (Inl InvalidAction)"
  then obtain z where z:
    "bfs_while p (initial_state p) [] {initial_state p} [(initial_state p, [])] = Some z"
    "map_sum id (\<lambda>(s, path, visited, queue). path) z = Inl InvalidAction"
    by (auto simp: bfs_def)
  from z(2) have "z = Inl InvalidAction" by (cases z) auto
  with bfs_while_no_invalid [OF z(1)] assms show False by simp
qed

lemma astar_for_no_invalid:
  "\<forall>a\<in>set actions. do_action p cs a \<noteq> Inl InvalidAction \<Longrightarrow>
   astar_for p cs path g actions st \<noteq> Inl InvalidAction"
proof (induction actions arbitrary: st)
  case Nil
  then show ?case by simp
next
  case (Cons action actions)
  obtain queue visited count where st: "st = (queue, visited, count)" by (cases st) auto
  show ?case using Cons st
    by (cases "do_action p cs action") (auto simp: Let_def split: if_splits option.splits)
qed

lemma astar_while_no_invalid:
  assumes "astar_while p queue visited count = Some r"
  shows "listed_ok p \<longrightarrow> r \<noteq> Inl InvalidAction"
proof (rule astar_while.raw_induct
         [where P = "\<lambda>p queue visited count r. listed_ok p \<longrightarrow> r \<noteq> Inl InvalidAction", OF _ assms],
       goal_cases)
  case (1 f p queue visited count y)
  show ?case
  proof
    assume l: "listed_ok p"
    have nf: "astar_for p cs path g (available_actions p cs) st \<noteq> Inl InvalidAction" for cs path g st
      using l by (intro astar_for_no_invalid) (auto simp: listed_ok_def)
    show "y \<noteq> Inl InvalidAction"
      using 1(2) nf 1(1) l
      by (auto split: if_splits sum.splits option.splits prod.splits)
  qed
qed

text \<open>
  C10.  Take a Problem whose \<^verbatim>\<open>do_action\<close> raises the invalid-action error exactly on
  the pairs of a state and an action that \<^verbatim>\<open>available_actions\<close> does not list for the
  state.  No engine catches an exception, so a call with an unlisted action would end
  the run with that error.  No run of \<^verbatim>\<open>bfs\<close>, \<^verbatim>\<open>dfs\<close> or \<^verbatim>\<open>astar\<close> ends with
  it: every call to \<^verbatim>\<open>do_action\<close> passes a state and an action listed for that state.
\<close>

theorem engines_call_listed_actions:
  fixes p :: "('s::linorder, 'a::linorder) Problem"
  assumes "\<forall>s a. (do_action p s a = Inl InvalidAction) = (a \<notin> set (available_actions p s))"
  shows "bfs p \<noteq> Some (Inl InvalidAction)
         \<and> dfs p \<noteq> Some (Inl InvalidAction)
         \<and> astar p \<noteq> Some (Inl InvalidAction)"
proof -
  have l: "listed_ok p"
    using assms by (simp add: listed_ok_def)
  have "astar p \<noteq> Some (Inl InvalidAction)"
    using astar_while_no_invalid [of p _ _ _ "Inl InvalidAction"] l
    by (auto simp: astar_def)
  then show ?thesis
    using bfs_no_invalid [OF l] dfs_no_invalid [OF l] by simp
qed

theorem engines_call_listed_actions_witness:
  "bfs p_chain \<noteq> Some (Inl InvalidAction)
   \<and> dfs p_chain \<noteq> Some (Inl InvalidAction)
   \<and> astar p_chain \<noteq> Some (Inl InvalidAction)"
proof -
  have "\<forall>s a. (do_action p_chain s a = Inl InvalidAction) = (a \<notin> set (available_actions p_chain s))"
    by (simp add: p_chain_def)
  then show ?thesis
    by (rule engines_call_listed_actions)
qed


subsection \<open>Backward chaining returns\<close>

lemma finite_premise_atoms: "finite (premise_atoms cls)"
  by (simp add: premise_atoms_def)

lemma card_insert_less:
  assumes "q \<in> premise_atoms cls" "q \<notin> T"
  shows "card (premise_atoms cls - insert q T) < card (premise_atoms cls - T)"
proof -
  have "premise_atoms cls - insert q T \<subset> premise_atoms cls - T"
    using assms by auto
  then show ?thesis
    by (simp add: finite_premise_atoms psubset_card_mono)
qed

text \<open>
  Every task returns, and leaves \<^verbatim>\<open>to_check\<close> as it found it (a query also removes
  its own symbol).  The induction is on the number of premise atoms outside
  \<^verbatim>\<open>to_check\<close>, then on the level of the task, then on what is left of its loop; the
  set is needed after each inner call, so both facts are proved together.
\<close>

lemma recursive_query_returns:
  "task_ok cls t \<Longrightarrow>
   \<exists>r m'. recursive_query cls t (m, T) = Some (r, m', to_check_after t T)"
proof (induction k \<equiv> "(card (premise_atoms cls - T), task_kind t, task_len t)"
       arbitrary: t m T rule: less_induct)
  case less
  show ?case
  proof (cases t)
    case (Query symbol)
    show ?thesis
    proof (cases "\<exists>v. m symbol = Some (Some v)")
      case True
      then show ?thesis using Query
        by (subst recursive_query.simps) auto
    next
      case False
      have "\<exists>r m'. recursive_query cls (ForClauses (filter (\<lambda>c. snd c = symbol) cls)) (m, T)
              = Some (r, m', to_check_after (ForClauses (filter (\<lambda>c. snd c = symbol) cls)) T)"
        by (rule less.hyps) (auto simp: Query)
      then obtain r m' where
        "recursive_query cls (ForClauses (filter (\<lambda>c. snd c = symbol) cls)) (m, T) = Some (r, m', T)"
        by auto
      then show ?thesis using Query False
        by (subst recursive_query.simps) (auto split: option.splits)
    qed
  next
    case (ForClauses cs)
    show ?thesis
    proof (cases cs)
      case Nil
      then show ?thesis using ForClauses
        by (subst recursive_query.simps) auto
    next
      case (Cons clause cs')
      have ok: "set (fst clause) \<subseteq> premise_atoms cls" "set cs' \<subseteq> set cls"
        using less.prems ForClauses Cons by (auto simp: premise_atoms_def)
      have "\<exists>r m'. recursive_query cls (ForPremises (fst clause)) (m, T)
              = Some (r, m', to_check_after (ForPremises (fst clause)) T)"
        by (rule less.hyps) (auto simp: ForClauses ok)
      then obtain r m' where 1:
        "recursive_query cls (ForPremises (fst clause)) (m, T) = Some (r, m', T)"
        by auto
      have "\<exists>r2 m2. recursive_query cls (ForClauses cs') (m', T)
              = Some (r2, m2, to_check_after (ForClauses cs') T)"
        by (rule less.hyps) (auto simp: ForClauses Cons ok)
      then obtain r2 m2 where 2:
        "recursive_query cls (ForClauses cs') (m', T) = Some (r2, m2, T)"
        by auto
      show ?thesis using ForClauses Cons 1 2
        by (subst recursive_query.simps) auto
    qed
  next
    case (ForPremises ps)
    show ?thesis
    proof (cases ps)
      case Nil
      then show ?thesis using ForPremises
        by (subst recursive_query.simps) auto
    next
      case (Cons premise ps')
      show ?thesis
      proof (cases "premise \<in> T")
        case True
        then show ?thesis using ForPremises Cons
          by (subst recursive_query.simps) auto
      next
        case False
        have ok: "premise \<in> premise_atoms cls" "set ps' \<subseteq> premise_atoms cls"
          using less.prems ForPremises Cons by auto
        have "\<exists>r m'. recursive_query cls (Query premise) (m, insert premise T)
                = Some (r, m', to_check_after (Query premise) (insert premise T))"
          by (rule less.hyps) (auto simp: ForPremises card_insert_less [OF ok(1) False])
        then obtain r m' where 1:
          "recursive_query cls (Query premise) (m, insert premise T) = Some (r, m', T)"
          using False by auto
        have "\<exists>r2 m2. recursive_query cls (ForPremises ps') (m', T)
                = Some (r2, m2, to_check_after (ForPremises ps') T)"
          by (rule less.hyps) (auto simp: ForPremises Cons ok)
        then obtain r2 m2 where 2:
          "recursive_query cls (ForPremises ps') (m', T) = Some (r2, m2, T)"
          by auto
        show ?thesis using ForPremises Cons False 1 2
          by (subst recursive_query.simps) auto
      qed
    qed
  qed
qed

text \<open>
  C9.  For every KB (its clause list is finite, cyclic or not), every state of the memo
  and every atom, \<^verbatim>\<open>BackwardChainingReasoner.query\<close> returns; and a premise that is
  already in the in-progress set \<^verbatim>\<open>to_check\<close> ends the loop over its clause's premises
  at once with \<^verbatim>\<open>all_premises_met = False\<close>, without a recursive call and without a
  change to the memo or the set.
\<close>

theorem query_terminates:
  "(\<exists>r m'. query kb inferred symbol = Some (r, m'))
   \<and> (premise \<in> to_check \<longrightarrow>
        recursive_query cls (ForPremises (premise # ps)) (inferred, to_check)
          = Some (False, inferred, to_check))"
proof
  obtain r m' where
    "recursive_query (clauses kb) (Query symbol) (inferred, set_of_str symbol)
       = Some (r, m', to_check_after (Query symbol) (set_of_str symbol))"
    using recursive_query_returns [of "clauses kb" "Query symbol" inferred "set_of_str symbol"]
    by auto
  then show "\<exists>r m'. query kb inferred symbol = Some (r, m')"
    by (auto simp: query_def split: option.splits)
next
  show "premise \<in> to_check \<longrightarrow>
        recursive_query cls (ForPremises (premise # ps)) (inferred, to_check)
          = Some (False, inferred, to_check)"
    by (subst recursive_query.simps) simp
qed

theorem query_terminates_witness:
  "(\<exists>r m'. query kb_loop (BackwardChainingReasoner_init kb_loop) ''p'' = Some (r, m'))
   \<and> ''p'' \<in> {''p''}
   \<and> recursive_query (clauses kb_loop) (ForPremises [''p''])
        (BackwardChainingReasoner_init kb_loop, {''p''})
      = Some (False, BackwardChainingReasoner_init kb_loop, {''p''})"
  using query_terminates [of kb_loop "BackwardChainingReasoner_init kb_loop" "''p''" "''p''"
                             "{''p''}" "clauses kb_loop" "[]"]
  by simp

subsection \<open>Forward and backward chaining on a cyclic knowledge base\<close>

lemma kb_cycle_entails_r: "entailed (clauses kb_cycle) ''r''"
proof -
  let ?cls = "[([''x'', ''y''], ''r''), ([''y''], ''x''), ([''a''], ''x''),
               ([''x''], ''y''), ([], ''a'')]"
  have a: "entailed ?cls ''a''"
    by (rule entailed.step [of "[]"]) simp_all
  have x: "entailed ?cls ''x''"
    by (rule entailed.step [of "[''a'']"]) (simp_all add: a)
  have y: "entailed ?cls ''y''"
    by (rule entailed.step [of "[''x'']"]) (simp_all add: x)
  have "entailed ?cls ''r''"
    by (rule entailed.step [of "[''x'', ''y'']"]) (simp_all add: x y)
  then show ?thesis
    by (simp add: kb_cycle_def)
qed

text \<open>
  Forward chaining is not sound when a fact is added twice: the fact is popped twice and
  the count of a clause with two premises reaches zero on one of them alone.
\<close>

lemma kb_twice_forward_unsound:
  "fc_query kb_twice ''c'' = Some (Inr True) \<and> \<not> entailed (clauses kb_twice) ''c''"
proof
  show "fc_query kb_twice ''c'' = Some (Inr True)"
    by (simp add: fc_query_def infer_def kb_twice_def infer_while.simps Let_def)
  have "\<not> entailed (clauses kb_twice) ''b''"
    by (auto elim: entailed.cases simp: kb_twice_def)
  then show "\<not> entailed (clauses kb_twice) ''c''"
    by (auto elim!: entailed.cases simp: kb_twice_def)
qed

text \<open>
  C1 (evaluation at the failing input).  On \<open>kb_cycle\<close> the atom \<open>r\<close> is in the minimal
  model and forward chaining answers true, but a fresh backward-chaining reasoner
  answers false: while \<open>x\<close> is in progress, \<open>y\<close> fails on the in-progress guard and is
  memoized as false; \<open>x\<close> is then proved from \<open>a\<close>, and the second premise \<open>y\<close> of \<open>r\<close>
  is answered from the memo.
\<close>

theorem chaining_disagree:
  "fc_query kb_cycle ''r'' = Some (Inr True)
   \<and> map_option fst (query kb_cycle (BackwardChainingReasoner_init kb_cycle) ''r'') = Some False"
proof
  show "fc_query kb_cycle ''r'' = Some (Inr True)"
    by (simp add: fc_query_def infer_def kb_cycle_def infer_while.simps Let_def)
  show "map_option fst (query kb_cycle (BackwardChainingReasoner_init kb_cycle) ''r'') = Some False"
    by (simp add: query_def kb_cycle_def BackwardChainingReasoner_init_def
                  recursive_query.simps set_of_str_def)
qed


end
